theory Spec2Isabelle
  imports Complex_Main "HOL-Library.Sublist"
begin

section \<open>Data model\<close>

text \<open>
  A share is a pair \<open>(x, y)\<close> of Python integers, which are unbounded: \<open>int\<close>.
  The three \<^verbatim>\<open>raise ValueError\<close> sites of \<^verbatim>\<open>lagrange_constant_term\<close> and the three
  raise sites of the consensus phase of \<^verbatim>\<open>solve_secret\<close> are kept apart, one
  constructor for each.
\<close>

type_synonym point = "int \<times> int"

datatype error =
    DuplicateAbscissa
  | ZeroDenominator
  | NonIntegerResult
  | InvalidParameters
  | InsufficientShares
  | NoConsistentSecret

section \<open>Lagrange interpolation at zero\<close>

text \<open>
  The inner loop \<^verbatim>\<open>for m in range(k)\<close> of \<^verbatim>\<open>lagrange_constant_term\<close>: the list
  argument is the part of \<^verbatim>\<open>range(k)\<close> still to visit, the pair is
  \<^verbatim>\<open>(numerator_product, denominator_product)\<close>.
\<close>

fun inner_loop :: "point list \<Rightarrow> nat \<Rightarrow> int \<Rightarrow> nat list \<Rightarrow> int \<times> int \<Rightarrow> error + int \<times> int" where
  "inner_loop points j xj [] acc = Inr acc"
| "inner_loop points j xj (m # ms) (numerator_product, denominator_product) =
     (if m \<noteq> j then
        (let xm = fst (points ! m) in
         if xj - xm = 0 then Inl DuplicateAbscissa
         else inner_loop points j xj ms
                (numerator_product * (- xm), denominator_product * (xj - xm)))
      else inner_loop points j xj ms (numerator_product, denominator_product))"

text \<open>
  The outer loop \<^verbatim>\<open>for j in range(k)\<close>, with the running \<^verbatim>\<open>secret\<close>. Python's
  \<^verbatim>\<open>%\<close> and \<^verbatim>\<open>//\<close> on integers are flooring, as \<open>mod\<close> and \<open>div\<close> on \<open>int\<close> are.
\<close>

fun outer_loop :: "point list \<Rightarrow> nat list \<Rightarrow> int \<Rightarrow> error + int" where
  "outer_loop points [] secret = Inr secret"
| "outer_loop points (j # js) secret =
     (let xj = fst (points ! j); yj = snd (points ! j) in
      case inner_loop points j xj [0..<length points] (1, 1) of
        Inl e \<Rightarrow> Inl e
      | Inr (numerator_product, denominator_product) \<Rightarrow>
          if denominator_product = 0 then Inl ZeroDenominator
          else if numerator_product mod denominator_product \<noteq> 0 then Inl NonIntegerResult
          else outer_loop points js
                 (secret + yj * (numerator_product div denominator_product)))"

definition lagrange_constant_term :: "point list \<Rightarrow> error + int" where
  "lagrange_constant_term points = outer_loop points [0..<length points] 0"

section \<open>Consensus by exhaustive voting\<close>

text \<open>
  \<^verbatim>\<open>itertools.combinations(iterable, r)\<close>: the \<open>r\<close>-element selections by position,
  in lexicographic order of the positions, each keeping the order of the input.
\<close>

fun combinations :: "'a list \<Rightarrow> nat \<Rightarrow> 'a list list" where
  "combinations xs 0 = [[]]"
| "combinations [] (Suc r) = []"
| "combinations (x # xs) (Suc r) =
     map ((#) x) (combinations xs r) @ combinations xs (Suc r)"

text \<open>
  \<^verbatim>\<open>secret_candidates\<close> is a \<^verbatim>\<open>Counter\<close>, a dictionary that iterates in the order
  its keys were first inserted: an association list in that order.
  \<^verbatim>\<open>secret_candidates[v] += 1\<close> reads a missing key as 0, so a new key is
  appended with count 1 and a known key is updated where it stands.
\<close>

type_synonym tally = "(int \<times> nat) list"

fun tally_incr :: "int \<Rightarrow> tally \<Rightarrow> tally" where
  "tally_incr v [] = [(v, 1)]"
| "tally_incr v ((w, c) # rest) =
     (if w = v then (w, c + 1) # rest else (w, c) # tally_incr v rest)"

text \<open>
  The loop over the combinations: a successful interpolation votes, every
  exception of \<^verbatim>\<open>lagrange_constant_term\<close> is caught and passed over.
\<close>

fun tally_loop :: "point list list \<Rightarrow> tally \<Rightarrow> tally" where
  "tally_loop [] secret_candidates = secret_candidates"
| "tally_loop (combo # rest) secret_candidates =
     (case lagrange_constant_term combo of
        Inr candidate_secret \<Rightarrow> tally_loop rest (tally_incr candidate_secret secret_candidates)
      | Inl e \<Rightarrow> tally_loop rest secret_candidates)"

text \<open>
  \<^verbatim>\<open>most_common(1)\<close> is \<^verbatim>\<open>max\<close> over the items keyed by the count, which keeps
  the first item of maximal count: the running best is replaced only by a
  strictly larger count.
\<close>

fun max_by_count :: "int \<times> nat \<Rightarrow> tally \<Rightarrow> int \<times> nat" where
  "max_by_count best [] = best"
| "max_by_count best (item # items) =
     (if snd best < snd item then max_by_count item items else max_by_count best items)"

text \<open>
  \<^verbatim>\<open>solve_secret\<close> from the point where \<^verbatim>\<open>n\<close>, \<^verbatim>\<open>k\<close> and the shares are known.
  \<open>processed_shares\<close> is the list of resolved points in the order of the input
  document; resolving them raises nothing (a share that fails to resolve is
  left out), so the two checks come in the order of the source.
\<close>

definition solve_secret :: "int \<Rightarrow> int \<Rightarrow> point list \<Rightarrow> error + int" where
  "solve_secret n k processed_shares =
     (if \<not> (1 \<le> k \<and> k \<le> n) then Inl InvalidParameters
      else if int (length processed_shares) < k then Inl InsufficientShares
      else
        (case tally_loop (combinations processed_shares (nat k)) [] of
           [] \<Rightarrow> Inl NoConsistentSecret
         | item # items \<Rightarrow> Inr (fst (max_by_count item items))))"

section \<open>The closed form of the interpolation\<close>

text \<open>
  The basis products as the design states them: for the point at position \<open>j\<close>,
  the product over every other position \<open>m\<close> of \<open>- x\<^sub>m\<close>, and of \<open>x\<^sub>j - x\<^sub>m\<close>.
\<close>

definition others :: "point list \<Rightarrow> nat \<Rightarrow> nat list" where
  "others points j = filter (\<lambda>m. m \<noteq> j) [0..<length points]"

definition numerator :: "point list \<Rightarrow> nat \<Rightarrow> int" where
  "numerator points j = prod_list (map (\<lambda>m. - fst (points ! m)) (others points j))"

definition denominator :: "point list \<Rightarrow> nat \<Rightarrow> int" where
  "denominator points j =
     prod_list (map (\<lambda>m. fst (points ! j) - fst (points ! m)) (others points j))"

definition lagrange_formula :: "point list \<Rightarrow> int" where
  "lagrange_formula points =
     sum_list (map (\<lambda>j. snd (points ! j) * (numerator points j div denominator points j))
                   [0..<length points])"

text \<open>The same sum over the rationals, with true division.\<close>

definition lagrange_rational :: "point list \<Rightarrow> rat" where
  "lagrange_rational points =
     sum_list (map (\<lambda>j. of_int (snd (points ! j)) *
                         (of_int (numerator points j) / of_int (denominator points j)))
                   [0..<length points])"

definition duplicate_at :: "point list \<Rightarrow> nat \<Rightarrow> bool" where
  "duplicate_at points j =
     list_ex (\<lambda>m. m \<noteq> j \<and> fst (points ! m) = fst (points ! j)) [0..<length points]"

definition exact_at :: "point list \<Rightarrow> nat \<Rightarrow> bool" where
  "exact_at points j = (denominator points j dvd numerator points j)"

section \<open>Polynomials as coefficient lists\<close>

text \<open>
  A polynomial is the list of its coefficients, the constant term first; a list
  of length at most \<open>k\<close> is a polynomial of degree less than \<open>k\<close>.
\<close>

fun peval :: "'a::comm_ring_1 list \<Rightarrow> 'a \<Rightarrow> 'a" where
  "peval [] x = 0"
| "peval (c # cs) x = c + x * peval cs x"

definition sample :: "int list \<Rightarrow> int list \<Rightarrow> point list" where
  "sample cs xs = map (\<lambda>x. (x, peval cs x)) xs"

text \<open>The quotient of \<open>p(x) - p(a)\<close> by \<open>x - a\<close>.\<close>

fun quot :: "'a::comm_ring_1 \<Rightarrow> 'a list \<Rightarrow> 'a list" where
  "quot a [] = []"
| "quot a [c] = []"
| "quot a (c # cs) = peval cs a # quot a cs"

fun padd :: "'a::comm_ring_1 list \<Rightarrow> 'a list \<Rightarrow> 'a list" where
  "padd [] q = q"
| "padd p [] = p"
| "padd (a # p) (b # q) = (a + b) # padd p q"

definition smult :: "'a::comm_ring_1 \<Rightarrow> 'a list \<Rightarrow> 'a list" where
  "smult c p = map (\<lambda>a. c * a) p"

definition polyfun :: "nat \<Rightarrow> ('a::comm_ring_1 \<Rightarrow> 'a) \<Rightarrow> bool" where
  "polyfun n f = (\<exists>p. length p \<le> n \<and> (\<forall>x. peval p x = f x))"

text \<open>
  The Lagrange interpolant of the points as a function on the rationals; the
  closed form is its value at 0.
\<close>

definition interpolant :: "point list \<Rightarrow> rat \<Rightarrow> rat" where
  "interpolant points t =
     sum_list (map (\<lambda>j. of_int (snd (points ! j)) *
                     prod_list (map (\<lambda>m. (t - of_int (fst (points ! m))) *
                                       inverse (of_int (fst (points ! j)) - of_int (fst (points ! m))))
                                    (others points j)))
                   [0..<length points])"

section \<open>Votes\<close>

text \<open>
  The number of \<open>k\<close>-selections on which the interpolation returns \<open>w\<close>, and the
  count a tally holds for \<open>w\<close> (a key that is absent counts 0).
\<close>

definition votes :: "point list \<Rightarrow> nat \<Rightarrow> int \<Rightarrow> nat" where
  "votes processed_shares k w =
     length (filter (\<lambda>combo. lagrange_constant_term combo = Inr w)
                    (combinations processed_shares k))"

definition tally_count :: "tally \<Rightarrow> int \<Rightarrow> nat" where
  "tally_count t w = (case map_of t w of None \<Rightarrow> 0 | Some c \<Rightarrow> c)"

section \<open>Orders of a share set\<close>

text \<open>
  A share set has no order of its own, the document gives it one. \<open>orderings xs\<close>
  lists every order of \<open>xs\<close>; \<open>first_success\<close> is the first selection, in the
  order of the enumeration, on which the interpolation returns a value.
\<close>

fun inserts :: "'a \<Rightarrow> 'a list \<Rightarrow> 'a list list" where
  "inserts x [] = [[x]]"
| "inserts x (y # ys) = (x # y # ys) # map ((#) y) (inserts x ys)"

fun orderings :: "'a list \<Rightarrow> 'a list list" where
  "orderings [] = [[]]"
| "orderings (x # xs) = concat (map (inserts x) (orderings xs))"

definition first_success :: "point list list \<Rightarrow> point list option" where
  "first_success combos = find (\<lambda>combo. \<not> isl (lagrange_constant_term combo)) combos"

section \<open>The loops of the interpolation in closed form\<close>

lemma inner_loop_char:
  "inner_loop points j xj ms (num, den) =
     (if \<exists>m\<in>set ms. m \<noteq> j \<and> fst (points ! m) = xj then Inl DuplicateAbscissa
      else Inr (num * prod_list (map (\<lambda>m. - fst (points ! m)) (filter (\<lambda>m. m \<noteq> j) ms)),
                den * prod_list (map (\<lambda>m. xj - fst (points ! m)) (filter (\<lambda>m. m \<noteq> j) ms))))"
  by (induction ms arbitrary: num den) (auto simp: Let_def algebra_simps)

lemma duplicate_at_iff:
  "duplicate_at points j \<longleftrightarrow> (\<exists>m<length points. m \<noteq> j \<and> fst (points ! m) = fst (points ! j))"
  by (auto simp: duplicate_at_def list_ex_iff)

lemma inner_loop_full:
  "inner_loop points j (fst (points ! j)) [0..<length points] (1, 1) =
     (if duplicate_at points j then Inl DuplicateAbscissa
      else Inr (numerator points j, denominator points j))"
  by (auto simp: inner_loop_char duplicate_at_iff numerator_def denominator_def others_def)

lemma denominator_nonzero: "\<not> duplicate_at points j \<Longrightarrow> denominator points j \<noteq> 0"
  by (auto simp: duplicate_at_iff denominator_def others_def prod_list_zero_iff)

lemma outer_loop_step:
  "outer_loop points (j # js) secret =
     (if duplicate_at points j then Inl DuplicateAbscissa
      else if \<not> exact_at points j then Inl NonIntegerResult
      else outer_loop points js
             (secret + snd (points ! j) * (numerator points j div denominator points j)))"
  by (simp add: inner_loop_full denominator_nonzero exact_at_def mod_eq_0_iff_dvd Let_def)

lemma outer_loop_Inr_iff:
  "outer_loop points js secret = Inr v \<longleftrightarrow>
     (\<forall>j\<in>set js. \<not> duplicate_at points j \<and> exact_at points j) \<and>
     v = secret + sum_list (map (\<lambda>j. snd (points ! j) *
                                  (numerator points j div denominator points j)) js)"
proof (induction js arbitrary: secret)
  case Nil
  show ?case by auto
next
  case (Cons j js)
  show ?case
    unfolding outer_loop_step using Cons.IH by (auto simp: algebra_simps)
qed

lemma outer_loop_Inl:
  "outer_loop points js secret = Inl e \<Longrightarrow>
     (e = DuplicateAbscissa \<and> (\<exists>j\<in>set js. duplicate_at points j)) \<or>
     (e = NonIntegerResult \<and> (\<exists>j\<in>set js. \<not> duplicate_at points j \<and> \<not> exact_at points j))"
proof (induction js arbitrary: secret)
  case Nil
  then show ?case by simp
next
  case (Cons j js)
  then show ?case
    unfolding outer_loop_step by (auto split: if_splits)
qed

lemma no_dup_distinct:
  "(\<forall>j<length points. \<not> duplicate_at points j) \<longleftrightarrow> distinct (map fst points)"
  by (auto simp: duplicate_at_iff distinct_conv_nth)

lemma lagrange_Inr_iff:
  "lagrange_constant_term points = Inr v \<longleftrightarrow>
     distinct (map fst points) \<and> (\<forall>j<length points. exact_at points j) \<and>
     v = lagrange_formula points"
  unfolding lagrange_constant_term_def outer_loop_Inr_iff lagrange_formula_def
    no_dup_distinct [symmetric]
  by auto

lemma of_int_exact_div:
  "d \<noteq> 0 \<Longrightarrow> d dvd n \<Longrightarrow> (of_int (n div d) :: rat) = of_int n / of_int d"
  by auto

lemma formula_rational:
  assumes "\<forall>j<length points. \<not> duplicate_at points j \<and> exact_at points j"
  shows "of_int (lagrange_formula points) = lagrange_rational points"
proof -
  have "of_int (snd (points ! j) * (numerator points j div denominator points j)) =
        (of_int (snd (points ! j)) *
           (of_int (numerator points j) / of_int (denominator points j)) :: rat)"
    if "j \<in> set [0..<length points]" for j
  proof -
    from that assms have "denominator points j \<noteq> 0" "denominator points j dvd numerator points j"
      by (auto simp: denominator_nonzero exact_at_def)
    then show ?thesis by (simp add: of_int_exact_div)
  qed
  then have "map (\<lambda>j. of_int (snd (points ! j) * (numerator points j div denominator points j)))
              [0..<length points] =
             map (\<lambda>j. (of_int (snd (points ! j)) *
                   (of_int (numerator points j) / of_int (denominator points j)) :: rat))
              [0..<length points]"
    by (intro map_cong refl)
  then show ?thesis
    unfolding lagrange_formula_def lagrange_rational_def
    by (simp only: sum_list_of_int [symmetric] map_map comp_def)
qed

section \<open>A polynomial with as many roots as coefficients vanishes\<close>

lemma quot_length: "length (quot a p) = length p - 1"
  by (induction a p rule: quot.induct) auto

lemma quot_factor: "peval p x - peval p a = (x - a) * peval (quot a p) x"
proof (induction a p rule: quot.induct)
  case (1 a)
  show ?case by simp
next
  case (2 a c)
  show ?case by simp
next
  case (3 a c d ds)
  let ?cs = "d # ds"
  have "peval (c # ?cs) x - peval (c # ?cs) a = x * peval ?cs x - a * peval ?cs a"
    by simp
  also have "\<dots> = (x - a) * peval ?cs a + x * (peval ?cs x - peval ?cs a)"
    by (simp add: algebra_simps)
  also have "\<dots> = (x - a) * peval ?cs a + x * ((x - a) * peval (quot a ?cs) x)"
    by (simp only: "3.IH")
  also have "\<dots> = (x - a) * peval (quot a (c # ?cs)) x"
    by (simp add: algebra_simps)
  finally show ?case .
qed

lemma roots_zero:
  fixes p :: "'a::idom list"
  shows "distinct xs \<Longrightarrow> length p \<le> length xs \<Longrightarrow> \<forall>x\<in>set xs. peval p x = 0 \<Longrightarrow> peval p t = 0"
proof (induction xs arbitrary: p t)
  case Nil
  then show ?case by simp
next
  case (Cons a xs)
  have fac: "peval p x = (x - a) * peval (quot a p) x" for x
    using quot_factor [of p x a] Cons.prems(3) by simp
  have "peval (quot a p) x = 0" if "x \<in> set xs" for x
  proof -
    from that Cons.prems have "x \<noteq> a" "peval p x = 0" by auto
    with fac [of x] show ?thesis by simp
  qed
  moreover have "length (quot a p) \<le> length xs"
    using Cons.prems(2) by (simp add: quot_length)
  moreover have "distinct xs" using Cons.prems(1) by simp
  ultimately have "peval (quot a p) t = 0"
    using Cons.IH by blast
  with fac [of t] show ?case by simp
qed

lemma padd_length: "length (padd p q) = max (length p) (length q)"
  by (induction p q rule: padd.induct) auto

lemma padd_eval: "peval (padd p q) x = peval p x + peval q x"
  by (induction p q rule: padd.induct) (auto simp: algebra_simps)

lemma smult_eval: "peval (smult c p) x = c * peval p x"
  by (induction p) (auto simp: smult_def algebra_simps)

lemma smult_length: "length (smult c p) = length p"
  by (simp add: smult_def)

lemma polyfun_mono: "polyfun n f \<Longrightarrow> n \<le> m \<Longrightarrow> polyfun m f"
  unfolding polyfun_def by (meson le_trans)

lemma polyfun_zero: "polyfun n (\<lambda>x. 0)"
  unfolding polyfun_def by (rule exI [of _ "[]"]) simp

lemma polyfun_const: "polyfun (Suc n) (\<lambda>x. c)"
  unfolding polyfun_def by (rule exI [of _ "[c]"]) simp

lemma polyfun_add: "polyfun n f \<Longrightarrow> polyfun n g \<Longrightarrow> polyfun n (\<lambda>x. f x + g x)"
proof -
  assume "polyfun n f" "polyfun n g"
  then obtain p q where "length p \<le> n" "\<forall>x. peval p x = f x" "length q \<le> n" "\<forall>x. peval q x = g x"
    unfolding polyfun_def by blast
  then have "length (padd p q) \<le> n \<and> (\<forall>x. peval (padd p q) x = f x + g x)"
    by (simp add: padd_length padd_eval)
  then show ?thesis unfolding polyfun_def by blast
qed

lemma polyfun_smult: "polyfun n f \<Longrightarrow> polyfun n (\<lambda>x. c * f x)"
proof -
  assume "polyfun n f"
  then obtain p where "length p \<le> n" "\<forall>x. peval p x = f x"
    unfolding polyfun_def by blast
  then have "length (smult c p) \<le> n" "\<forall>x. peval (smult c p) x = c * f x"
    by (simp_all add: smult_eval smult_length)
  then show ?thesis unfolding polyfun_def by blast
qed

lemma polyfun_linear: "polyfun n f \<Longrightarrow> polyfun (Suc n) (\<lambda>x. (x - a) * f x)"
proof -
  assume "polyfun n f"
  then obtain p where p: "length p \<le> n" "\<forall>x. peval p x = f x"
    unfolding polyfun_def by blast
  let ?q = "padd (0 # p) (smult (- a) p)"
  have "length ?q \<le> Suc n" using p(1) by (simp add: padd_length smult_length)
  moreover have "\<forall>x. peval ?q x = (x - a) * f x"
    using p(2) by (simp add: padd_eval smult_eval algebra_simps)
  ultimately show ?thesis unfolding polyfun_def by blast
qed

lemma polyfun_diff: "polyfun n f \<Longrightarrow> polyfun n g \<Longrightarrow> polyfun n (\<lambda>x. f x - g x)"
  using polyfun_add [OF _ polyfun_smult [of n g "- 1"], of f] by simp

lemma polyfun_sum_list:
  "(\<And>j. j \<in> set js \<Longrightarrow> polyfun n (f j)) \<Longrightarrow> polyfun n (\<lambda>x. sum_list (map (\<lambda>j. f j x) js))"
proof (induction js)
  case Nil
  show ?case by (simp add: polyfun_zero)
next
  case (Cons j js)
  have "polyfun n (\<lambda>x. f j x + sum_list (map (\<lambda>j. f j x) js))"
    by (rule polyfun_add) (use Cons in auto)
  then show ?case by simp
qed

lemma polyfun_prod_list:
  "polyfun (Suc (length ms)) (\<lambda>x. prod_list (map (\<lambda>m. (x - a m) * c m) ms))"
proof (induction ms)
  case Nil
  show ?case by (simp add: polyfun_const)
next
  case (Cons m ms)
  have "polyfun (Suc (Suc (length ms)))
          (\<lambda>x. c m * ((x - a m) * prod_list (map (\<lambda>m. (x - a m) * c m) ms)))"
    by (intro polyfun_smult polyfun_linear Cons.IH)
  then show ?case by (simp add: mult_ac)
qed

lemma polyfun_roots:
  fixes f :: "'a::idom \<Rightarrow> 'a"
  assumes "polyfun n f" "distinct xs" "n \<le> length xs" "\<forall>x\<in>set xs. f x = 0"
  shows "f t = 0"
proof -
  from assms(1) obtain p where p: "length p \<le> n" "\<forall>x. peval p x = f x"
    unfolding polyfun_def by blast
  have "peval p t = 0"
    by (rule roots_zero [OF assms(2)]) (use p assms in auto)
  with p show ?thesis by simp
qed

section \<open>The interpolant meets the polynomial\<close>

lemma others_length: "j < length points \<Longrightarrow> length (others points j) = length points - 1"
proof -
  assume j: "j < length points"
  have "{m. m \<noteq> j} \<inter> {0..<length points} = {0..<length points} - {j}" by auto
  then show ?thesis using j by (simp add: others_def distinct_length_filter)
qed

lemma others_set: "set (others points j) = {m. m < length points \<and> m \<noteq> j}"
  by (auto simp: others_def)

lemma interpolant_polyfun: "polyfun (length points) (interpolant points)"
proof -
  have "polyfun (length points)
          (\<lambda>t. of_int (snd (points ! j)) *
                prod_list (map (\<lambda>m. (t - of_int (fst (points ! m))) *
                     inverse (of_int (fst (points ! j)) - of_int (fst (points ! m)) :: rat))
                  (others points j)))"
    if "j \<in> set [0..<length points]" for j
  proof -
    from that have "Suc (length (others points j)) = length points"
      by (simp add: others_length)
    then show ?thesis
      using polyfun_smult [OF polyfun_prod_list [of "others points j"
          "\<lambda>m. of_int (fst (points ! m)) :: rat"
          "\<lambda>m. inverse (of_int (fst (points ! j)) - of_int (fst (points ! m)))"]]
      by simp
  qed
  then have "polyfun (length points) (\<lambda>t. interpolant points t)"
    unfolding interpolant_def by (rule polyfun_sum_list)
  then show ?thesis by simp
qed

lemma prod_list_quotient:
  "prod_list (map (\<lambda>m. (of_int (f m) :: rat) * inverse (of_int (g m))) ms) =
     of_int (prod_list (map f ms)) / of_int (prod_list (map g ms))"
  by (induction ms) (auto simp: field_simps)

lemma interpolant_at_zero: "interpolant points 0 = lagrange_rational points"
proof -
  have "prod_list (map (\<lambda>m. (0 - of_int (fst (points ! m))) *
            inverse (of_int (fst (points ! j)) - of_int (fst (points ! m)) :: rat))
          (others points j)) =
        of_int (numerator points j) / of_int (denominator points j)" for j
    using prod_list_quotient [of "\<lambda>m. - fst (points ! m)"
        "\<lambda>m. fst (points ! j) - fst (points ! m)" "others points j"]
    by (simp add: numerator_def denominator_def)
  then show ?thesis
    unfolding interpolant_def lagrange_rational_def by simp
qed

lemma prod_list_all_one:
  "\<forall>m\<in>set ms. f m = (1::rat) \<Longrightarrow> prod_list (map f ms) = 1"
  by (induction ms) auto

lemma interpolant_at_node:
  assumes "distinct (map fst points)" "i < length points"
  shows "interpolant points (of_int (fst (points ! i))) = of_int (snd (points ! i))"
proof -
  let ?X = "\<lambda>m. of_int (fst (points ! m)) :: rat"
  let ?summand = "\<lambda>j. of_int (snd (points ! j)) *
                  prod_list (map (\<lambda>m. (?X i - ?X m) * inverse (?X j - ?X m)) (others points j))"
  have neq: "?X a \<noteq> ?X b" if "a < length points" "b < length points" "a \<noteq> b" for a b
    using assms(1) that by (auto simp: distinct_conv_nth)
  have off: "?summand j = 0" if "j < length points" "j \<noteq> i" for j
  proof -
    have "i \<in> set (others points j)" using assms(2) that by (simp add: others_set)
    then have "(0::rat) \<in> set (map (\<lambda>m. (?X i - ?X m) * inverse (?X j - ?X m)) (others points j))"
      by force
    then show ?thesis by (simp add: prod_list_zero_iff)
  qed
  have on: "?summand i = of_int (snd (points ! i))"
  proof -
    have "\<forall>m\<in>set (others points i). (?X i - ?X m) * inverse (?X i - ?X m) = 1"
      using neq [OF assms(2)] by (auto simp: others_set)
    then have "prod_list (map (\<lambda>m. (?X i - ?X m) * inverse (?X i - ?X m)) (others points i)) = 1"
      by (rule prod_list_all_one)
    then show ?thesis by (simp only: mult_1_right)
  qed
  have "interpolant points (?X i) = (\<Sum>j\<in>{0..<length points}. ?summand j)"
    unfolding interpolant_def by (simp add: interv_sum_list_conv_sum_set_nat)
  also have "\<dots> = (\<Sum>j\<in>{0..<length points}. if j = i then of_int (snd (points ! i)) else 0)"
    by (rule sum.cong) (auto simp: off on)
  also have "\<dots> = of_int (snd (points ! i))"
    using assms(2) by simp
  finally show ?thesis .
qed

lemma peval_of_int: "peval (map of_int cs) (of_int x :: rat) = of_int (peval cs x)"
  by (induction cs) auto

lemma rational_formula_is_constant_term:
  assumes "distinct xs" "length cs \<le> length xs"
  shows "lagrange_rational (sample cs xs) = of_int (peval cs 0)"
proof -
  let ?pts = "sample cs xs"
  let ?D = "\<lambda>t. peval (map of_int cs) t - interpolant ?pts t"
  have len: "length ?pts = length xs" by (simp add: sample_def)
  have fsts: "map fst ?pts = xs" by (simp add: sample_def comp_def)
  have "polyfun (length xs) (\<lambda>t. peval (map of_int cs :: rat list) t)"
    unfolding polyfun_def using assms(2) by (intro exI [of _ "map of_int cs"]) simp
  then have pf: "polyfun (length xs) ?D"
    using interpolant_polyfun [of ?pts] by (intro polyfun_diff) (simp_all add: len)
  have roots: "\<forall>x\<in>set (map of_int xs :: rat list). ?D x = 0"
  proof
    fix x :: rat
    assume "x \<in> set (map of_int xs)"
    then obtain i where i: "i < length xs" "x = of_int (xs ! i)"
      by (auto simp: in_set_conv_nth)
    have "interpolant ?pts (of_int (fst (?pts ! i))) = of_int (snd (?pts ! i))"
      by (rule interpolant_at_node) (use assms(1) i(1) in \<open>simp_all add: fsts len\<close>)
    then show "?D x = 0"
      using i by (simp add: sample_def peval_of_int)
  qed
  have "distinct (map of_int xs :: rat list)"
    using assms(1) by (simp add: distinct_map inj_on_def)
  then have "?D 0 = 0"
    by (rule polyfun_roots [OF pf]) (use roots in simp_all)
  then have "interpolant ?pts 0 = peval (map of_int cs) (of_int 0)" by simp
  then show ?thesis
    by (simp only: interpolant_at_zero peval_of_int)
qed


lemma lagrange_Inl:
  "lagrange_constant_term points = Inl e \<Longrightarrow>
     (e = DuplicateAbscissa \<and> \<not> distinct (map fst points)) \<or>
     (e = NonIntegerResult \<and> (\<exists>j<length points. \<not> exact_at points j))"
  unfolding lagrange_constant_term_def
  by (drule outer_loop_Inl) (auto simp: no_dup_distinct [symmetric])


section \<open>Exactness of the interpolation\<close>

text \<open>
  C1, as the code has it. Let \<open>cs\<close> be the integer coefficients of a polynomial of
  degree less than \<open>k\<close>, and \<open>xs\<close> a list of \<open>k\<close> pairwise distinct abscissae. On the
  sample points the interpolation returns the constant term when every basis
  quotient is exact, and fails with \<open>NonIntegerResult\<close> when one of them is not:
  it never returns another value, and it raises no other error.
\<close>

theorem exact_samples_give_constant_term: 
  assumes "distinct xs" "length cs \<le> length xs"
  shows "lagrange_constant_term (sample cs xs) =
     (if \<forall>j<length xs. exact_at (sample cs xs) j then Inr (peval cs 0)
      else Inl NonIntegerResult)"
proof -
  let ?pts = "sample cs xs"
  have len: "length ?pts = length xs" by (simp add: sample_def)
  have fsts: "map fst ?pts = xs" by (simp add: sample_def comp_def)
  show ?thesis
  proof (cases "\<forall>j<length xs. exact_at ?pts j")
    case True
    then have ex: "\<forall>j<length ?pts. \<not> duplicate_at ?pts j \<and> exact_at ?pts j"
      using assms(1) no_dup_distinct [of ?pts] by (simp add: fsts len)
    have "(of_int (lagrange_formula ?pts) :: rat) = of_int (peval cs 0)"
      using formula_rational [OF ex] rational_formula_is_constant_term [OF assms] by simp
    then have "lagrange_formula ?pts = peval cs 0" by (simp only: of_int_eq_iff)
    then show ?thesis
      using True assms(1) by (simp add: lagrange_Inr_iff fsts len)
  next
    case False
    then have "\<forall>v. lagrange_constant_term ?pts \<noteq> Inr v"
      by (simp add: lagrange_Inr_iff len)
    then obtain e where e: "lagrange_constant_term ?pts = Inl e"
      by (cases "lagrange_constant_term ?pts") auto
    from lagrange_Inl [OF e] assms(1) have "e = NonIntegerResult"
      by (simp add: fsts)
    with e False show ?thesis by simp
  qed
qed

theorem exact_samples_give_constant_term_witness:
  "distinct [1, 2, 3 :: int] \<and> length [210, 160, - 70 :: int] \<le> length [1, 2, 3 :: int] \<and>
   sample [210, 160, - 70] [1, 2, 3] = [(1, 300), (2, 250), (3, 60)] \<and>
   lagrange_constant_term (sample [210, 160, - 70] [1, 2, 3]) = Inr 210"
proof -
  have ex: "\<forall>j<length [1, 2, 3 :: int]. exact_at (sample [210, 160, - 70] [1, 2, 3]) j"
    by (simp add: All_less_Suc exact_at_def numerator_def denominator_def others_def sample_def)
  show ?thesis
    using exact_samples_give_constant_term [of "[1, 2, 3]" "[210, 160, - 70]"] ex
    by (simp add: sample_def)
qed

text \<open>
  The claim as it is written fails: the points \<open>(10, 25)\<close> and \<open>(30, 65)\<close> lie on
  \<open>2x + 5\<close>, of degree 1, with distinct abscissae, and the first basis quotient
  \<open>-30 / -20\<close> is not an integer.
\<close>

theorem exact_samples_counterexample:
  "distinct [10, 30 :: int] \<and> length [5, 2 :: int] \<le> length [10, 30 :: int] \<and>
   sample [5, 2] [10, 30] = [(10, 25), (30, 65)] \<and>
   peval [5, 2 :: int] 0 = 5 \<and>
   lagrange_constant_term (sample [5, 2] [10, 30]) = Inl NonIntegerResult"
  by (simp add: sample_def lagrange_constant_term_def)

section \<open>The returned value is the closed form\<close>

text \<open>
  C2. Whenever the interpolation returns a value, the abscissae are pairwise
  distinct, every denominator is non-zero and divides its numerator, and the
  value is the sum over \<open>j\<close> of \<open>y\<^sub>j\<close> times the quotient of the product of \<open>- x\<^sub>m\<close> by
  the product of \<open>x\<^sub>j - x\<^sub>m\<close> over \<open>m \<noteq> j\<close>; the integer quotients lose nothing, the
  same sum with division in the rationals has the same value.
\<close>

theorem returned_value_is_formula:
  assumes "lagrange_constant_term points = Inr v"
  shows "distinct (map fst points) \<and>
         (\<forall>j<length points. denominator points j \<noteq> 0 \<and>
                              denominator points j dvd numerator points j) \<and>
         v = lagrange_formula points \<and>
         of_int v = lagrange_rational points"
proof -
  from assms have d: "distinct (map fst points)"
    and ex: "\<forall>j<length points. exact_at points j"
    and v: "v = lagrange_formula points"
    by (simp_all add: lagrange_Inr_iff)
  from d have nd: "\<forall>j<length points. \<not> duplicate_at points j"
    by (simp add: no_dup_distinct)
  with ex have "of_int (lagrange_formula points) = lagrange_rational points"
    by (intro formula_rational) simp
  with d ex v nd show ?thesis
    by (auto simp: exact_at_def denominator_nonzero)
qed

theorem returned_value_is_formula_witness:
  "lagrange_constant_term [(10, 25), (20, 45)] = Inr 5 \<and>
   lagrange_formula [(10, 25), (20, 45)] = 5 \<and>
   lagrange_rational [(10, 25), (20, 45)] = 5"
proof -
  have h: "lagrange_constant_term [(10, 25), (20, 45)] = Inr 5"
    by (simp add: lagrange_constant_term_def)
  from returned_value_is_formula [OF h] h show ?thesis by simp
qed

section \<open>Duplicate abscissae\<close>

lemma outer_loop_append:
  "outer_loop points (pre @ rest) secret =
     (case outer_loop points pre secret of
        Inl e \<Rightarrow> Inl e
      | Inr s \<Rightarrow> outer_loop points rest s)"
proof (induction pre arbitrary: secret)
  case Nil
  show ?case by simp
next
  case (Cons j pre)
  show ?case
    unfolding append_Cons outer_loop_step using Cons.IH by simp
qed

lemma lagrange_first_failure:
  assumes "f < length points"
    and "duplicate_at points f \<or> \<not> exact_at points f"
    and "\<forall>l<f. \<not> duplicate_at points l \<and> exact_at points l"
  shows "lagrange_constant_term points =
           (if duplicate_at points f then Inl DuplicateAbscissa else Inl NonIntegerResult)"
proof -
  have split: "[0..<length points] = [0..<f] @ f # [Suc f..<length points]"
  proof -
    have "[0..<f + (length points - f)] = [0..<f] @ [f..<f + (length points - f)]"
      by (rule upt_add_eq_append) simp
    then have "[0..<length points] = [0..<f] @ [f..<length points]"
      using assms(1) by simp
    also have "[f..<length points] = f # [Suc f..<length points]"
      using assms(1) by (rule upt_conv_Cons)
    finally show ?thesis .
  qed
  obtain s where s: "outer_loop points [0..<f] 0 = Inr s"
    using assms(3) by (simp add: outer_loop_Inr_iff)
  have "outer_loop points (f # [Suc f..<length points]) s =
          (if duplicate_at points f then Inl DuplicateAbscissa else Inl NonIntegerResult)"
    using assms(2) by (auto simp only: outer_loop_step split: if_splits)
  then show ?thesis
    unfolding lagrange_constant_term_def
    by (simp only: split outer_loop_append s sum.case)
qed

text \<open>
  C5, as the code has it. A list with two points of equal abscissa never
  yields a value, and the error is \<open>DuplicateAbscissa\<close> with one exception: when
  some point that stands before every point with a duplicated abscissa has a
  basis quotient that is not an integer, the call ends there with
  \<open>NonIntegerResult\<close>.
\<close>

theorem duplicate_abscissa_fails:
  assumes "i < length points" "j < length points" "i \<noteq> j"
    and "fst (points ! i) = fst (points ! j)"
  shows "lagrange_constant_term points =
           (if \<exists>l<length points. \<not> exact_at points l \<and> (\<forall>m\<le>l. \<not> duplicate_at points m)
            then Inl NonIntegerResult else Inl DuplicateAbscissa)"
proof -
  let ?fails = "\<lambda>l. duplicate_at points l \<or> \<not> exact_at points l"
  define f where "f = (LEAST l. ?fails l)"
  from assms have dup_i: "duplicate_at points i"
    by (auto simp: duplicate_at_iff)
  then have fails_i: "?fails i" by simp
  have fails_f: "?fails f"
    unfolding f_def using fails_i by (rule LeastI)
  have f_le: "f \<le> l" if "?fails l" for l
    unfolding f_def using that by (rule Least_le)
  have before: "\<forall>l<f. \<not> duplicate_at points l \<and> exact_at points l"
    using f_le by fastforce
  have "f \<le> i" using fails_i by (rule f_le)
  with assms(1) have f_lt: "f < length points" by simp
  have res: "lagrange_constant_term points =
      (if duplicate_at points f then Inl DuplicateAbscissa else Inl NonIntegerResult)"
    using f_lt fails_f before by (rule lagrange_first_failure)
  show ?thesis
  proof (cases "\<exists>l<length points. \<not> exact_at points l \<and> (\<forall>m\<le>l. \<not> duplicate_at points m)")
    case True
    then obtain l where l: "\<not> exact_at points l" "\<forall>m\<le>l. \<not> duplicate_at points m"
      by blast
    from l(1) have "f \<le> l" by (simp add: f_le)
    with l(2) have "\<not> duplicate_at points f" by simp
    with res True show ?thesis by simp
  next
    case False
    have "duplicate_at points f"
    proof (rule ccontr)
      assume nd: "\<not> duplicate_at points f"
      with fails_f have "\<not> exact_at points f" by simp
      moreover have "\<forall>m\<le>f. \<not> duplicate_at points m"
        using nd before by (simp add: le_less)
      ultimately show False using False f_lt by blast
    qed
    with res False show ?thesis by simp
  qed
qed

text \<open>
  In \<open>[(1, 7), (2, 5), (2, 9)]\<close> the point before the duplicated pair has the
  exact quotient \<open>4 / 1\<close>, and the duplicate is reported.
\<close>

theorem duplicate_abscissa_fails_witness:
  "(1::nat) < length ([(1, 7), (2, 5), (2, 9)] :: point list) \<and>
   (2::nat) < length ([(1, 7), (2, 5), (2, 9)] :: point list) \<and> (1::nat) \<noteq> 2 \<and>
   fst (([(1, 7), (2, 5), (2, 9)] :: point list) ! 1) =
     fst (([(1, 7), (2, 5), (2, 9)] :: point list) ! 2) \<and>
   exact_at [(1, 7), (2, 5), (2, 9)] 0 \<and>
   lagrange_constant_term [(1, 7), (2, 5), (2, 9)] = Inl DuplicateAbscissa"
proof -
  let ?ps = "[(1, 7), (2, 5), (2, 9)] :: point list"
  have e0: "exact_at ?ps 0" by code_simp
  have d1: "duplicate_at ?ps 1" by code_simp
  have none: "\<not> (\<exists>l<length ?ps. \<not> exact_at ?ps l \<and> (\<forall>m\<le>l. \<not> duplicate_at ?ps m))"
  proof
    assume "\<exists>l<length ?ps. \<not> exact_at ?ps l \<and> (\<forall>m\<le>l. \<not> duplicate_at ?ps m)"
    then obtain l where l: "\<not> exact_at ?ps l" "\<forall>m\<le>l. \<not> duplicate_at ?ps m" by blast
    from l(2) d1 have "\<not> 1 \<le> l" by blast
    then have "l = 0" by simp
    with l(1) e0 show False by simp
  qed
  from duplicate_abscissa_fails [of 1 ?ps 2] none e0 show ?thesis by simp
qed

text \<open>
  The claim as it is written fails: in \<open>[(1, 0), (3, 0), (3, 0)]\<close> the last two
  points share the abscissa 3, and the first point is examined first: its
  quotient \<open>9 / 4\<close> is not an integer, which ends the call.
\<close>

theorem duplicate_abscissa_counterexample:
  "fst ([(1 :: int, 0 :: int), (3, 0), (3, 0)] ! 1) = fst ([(1 :: int, 0 :: int), (3, 0), (3, 0)] ! 2) \<and>
   lagrange_constant_term [(1, 0), (3, 0), (3, 0)] = Inl NonIntegerResult \<and>
   lagrange_constant_term [(1, 0), (3, 0), (3, 0)] \<noteq> Inl DuplicateAbscissa"
  by (simp add: lagrange_constant_term_def)

section \<open>Fewer shares than the threshold\<close>

text \<open>
  C6, as the code has it. With fewer resolved shares than \<open>k\<close> the call never
  returns a value. The check of \<open>1 \<le> k \<le> n\<close> comes first, so the failure is
  \<open>InsufficientShares\<close> when \<open>k \<le> n\<close> and \<open>InvalidParameters\<close> when \<open>n < k\<close>. For
  the shares \<open>(1, 10)\<close>, \<open>(2, 20)\<close> and \<open>k = 3\<close> it is \<open>InsufficientShares\<close> for every
  declared \<open>n\<close> of at least 3.
\<close>

theorem too_few_shares_fail:
  "(int (length processed_shares) < k \<longrightarrow>
      solve_secret n k processed_shares =
        (if k \<le> n then Inl InsufficientShares else Inl InvalidParameters)) \<and>
   (3 \<le> n \<longrightarrow> solve_secret n 3 [(1, 10), (2, 20)] = Inl InsufficientShares)"
  by (simp add: solve_secret_def)

theorem too_few_shares_fail_witness:
  "int (length ([(1, 10), (2, 20)] :: point list)) < 3 \<and> (3::int) \<le> 3 \<and>
   solve_secret 3 3 [(1, 10), (2, 20)] = Inl InsufficientShares"
  using too_few_shares_fail [of "[(1, 10), (2, 20)]" 3 3] by simp

text \<open>
  The claim as it is written fails when \<open>n\<close> is the number of shares: two shares,
  \<open>n = 2\<close> and \<open>k = 3\<close> are refused as invalid parameters.
\<close>

theorem too_few_shares_counterexample:
  "int (length ([(1, 10), (2, 20)] :: point list)) < 3 \<and>
   solve_secret 2 3 [(1, 10), (2, 20)] = Inl InvalidParameters \<and>
   solve_secret 2 3 [(1, 10), (2, 20)] \<noteq> Inl InsufficientShares"
  by (simp add: solve_secret_def)

section \<open>The two worked scenarios\<close>

lemma inserts_member: "a @ x # b \<in> set (inserts x (a @ b))"
  by (induction a) (auto, cases b, auto)

lemma orderings_complete:
  "distinct xs \<Longrightarrow> distinct ps \<Longrightarrow> set ps = set xs \<Longrightarrow> ps \<in> set (orderings xs)"
proof (induction xs arbitrary: ps)
  case Nil
  then show ?case by simp
next
  case (Cons x xs)
  then have "x \<in> set ps" by simp
  then obtain a b where ps: "ps = a @ x # b" by (meson split_list)
  with Cons.prems have "distinct (a @ b)" "set (a @ b) = set xs" by auto
  with Cons.prems(1) have "a @ b \<in> set (orderings xs)" by (intro Cons.IH) simp_all
  with inserts_member [of a x b] show ?case by (auto simp: ps)
qed

lemma scenario_A_all_orders:
  "list_all
     (\<lambda>ps. solve_secret 5 3 ps \<in> set [Inr 210, Inr 510, Inr 1110, Inr 6950, Inr 36150] \<and>
            (solve_secret 5 3 ps = Inr 210) =
              (map_option set (first_success (combinations ps 3)) =
                 Some {(1, 300), (2, 250), (3, 60)}))
     (orderings [(1, 300), (2, 250), (3, 60), (4, 30), (5, 6000)])"
  by code_simp

lemma scenario_A_written_order:
  "lagrange_constant_term [(1, 300), (2, 250), (3, 60)] = Inr 210 \<and>
   tally_loop (combinations [(1, 300), (2, 250), (3, 60), (4, 30), (5, 6000)] 3) [] =
     [(210, 1), (510, 1), (1110, 1), (6950, 1), (36150, 1)] \<and>
   solve_secret 5 3 [(1, 300), (2, 250), (3, 60), (4, 30), (5, 6000)] = Inr 210"
  by code_simp

text \<open>
  C7, as the code has it. Of the ten selections of three of the shares
  \<open>(1, 300)\<close>, \<open>(2, 250)\<close>, \<open>(3, 60)\<close>, \<open>(4, 30)\<close>, \<open>(5, 6000)\<close> five interpolate, each
  to a value of its own, so the five candidates tie with one vote and the
  candidate inserted first is returned. With \<open>n = 5\<close> and \<open>k = 3\<close>: enumerated in
  the order written here the shares reconstruct 210, the value of the three
  genuine points; in whatever order the five shares are enumerated the
  reconstruction succeeds and returns one of 210, 510, 1110, 6950, 36150; and
  it returns 210 exactly when the first selection that interpolates is the one
  of the three genuine points.
\<close>

theorem scenario_A_first_candidate:
  "lagrange_constant_term [(1, 300), (2, 250), (3, 60)] = Inr 210 \<and>
   tally_loop (combinations [(1, 300), (2, 250), (3, 60), (4, 30), (5, 6000)] 3) [] =
     [(210, 1), (510, 1), (1110, 1), (6950, 1), (36150, 1)] \<and>
   solve_secret 5 3 [(1, 300), (2, 250), (3, 60), (4, 30), (5, 6000)] = Inr 210 \<and>
   (\<forall>ps. distinct ps \<and> set ps = set [(1, 300), (2, 250), (3, 60), (4, 30), (5, 6000)] \<longrightarrow>
      solve_secret 5 3 ps \<in> {Inr 210, Inr 510, Inr 1110, Inr 6950, Inr 36150} \<and>
      (solve_secret 5 3 ps = Inr 210 \<longleftrightarrow>
         map_option set (first_success (combinations ps 3)) =
           Some {(1, 300), (2, 250), (3, 60)}))"
proof -
  let ?S = "[(1, 300), (2, 250), (3, 60), (4, 30), (5, 6000)] :: point list"
  have "solve_secret 5 3 ps \<in> {Inr 210, Inr 510, Inr 1110, Inr 6950, Inr 36150} \<and>
        (solve_secret 5 3 ps = Inr 210 \<longleftrightarrow>
           map_option set (first_success (combinations ps 3)) =
             Some {(1, 300), (2, 250), (3, 60)})"
    if "distinct ps \<and> set ps = set ?S" for ps
  proof -
    have "distinct ?S" by simp
    with that have "ps \<in> set (orderings ?S)" by (intro orderings_complete) simp_all
    with scenario_A_all_orders show ?thesis
      unfolding list_all_iff by fastforce
  qed
  with scenario_A_written_order show ?thesis by blast
qed

theorem scenario_A_first_candidate_witness:
  "distinct ([(1, 300), (2, 250), (3, 60), (5, 6000), (4, 30)] :: point list) \<and>
   set ([(1, 300), (2, 250), (3, 60), (5, 6000), (4, 30)] :: point list) =
     set [(1, 300), (2, 250), (3, 60), (4, 30), (5, 6000)] \<and>
   map_option set
     (first_success (combinations [(1, 300), (2, 250), (3, 60), (5, 6000), (4, 30)] 3)) =
     Some {(1, 300), (2, 250), (3, 60)} \<and>
   solve_secret 5 3 [(1, 300), (2, 250), (3, 60), (5, 6000), (4, 30)] = Inr 210"
proof -
  let ?ps = "[(1, 300), (2, 250), (3, 60), (5, 6000), (4, 30)] :: point list"
  have d: "distinct ?ps" by simp
  have e: "set ?ps = set ([(1, 300), (2, 250), (3, 60), (4, 30), (5, 6000)] :: point list)" by auto
  have f: "map_option set (first_success (combinations ?ps 3)) =
      Some {(1, 300), (2, 250), (3, 60)}"
    by code_simp
  from scenario_A_first_candidate d e f
  have "solve_secret 5 3 ?ps = Inr 210" by blast
  with d e f show ?thesis by blast
qed

text \<open>
  The claim as it is written names a share set, which has no order, and fails
  for some orders of it: with the shares at 4 and 5 ahead of the other three
  the first selection that interpolates is \<open>(4, 30)\<close>, \<open>(5, 6000)\<close>, \<open>(3, 60)\<close>, and
  its candidate 36150 is returned.
\<close>

theorem scenario_A_counterexample:
  "distinct ([(4, 30), (5, 6000), (1, 300), (2, 250), (3, 60)] :: point list) \<and>
   set ([(4, 30), (5, 6000), (1, 300), (2, 250), (3, 60)] :: point list) =
     set [(1, 300), (2, 250), (3, 60), (4, 30), (5, 6000)] \<and>
   solve_secret 5 3 [(4, 30), (5, 6000), (1, 300), (2, 250), (3, 60)] = Inr 36150 \<and>
   solve_secret 5 3 [(4, 30), (5, 6000), (1, 300), (2, 250), (3, 60)] \<noteq> Inr 210"
proof -
  have "solve_secret 5 3 [(4, 30), (5, 6000), (1, 300), (2, 250), (3, 60)] = Inr 36150"
    by code_simp
  then show ?thesis by auto
qed

text \<open>
  C8. The shares \<open>(10, 25)\<close>, \<open>(20, 45)\<close>, \<open>(30, 120)\<close> in this order with \<open>n = 3\<close> and
  \<open>k = 2\<close> reconstruct the secret 5: the first pair votes 5, the second is passed
  over as not exact, the third votes -105, and of the two candidates with one
  vote each the first one inserted is returned.
\<close>

theorem scenario_B_returns_5:
  "map lagrange_constant_term (combinations [(10, 25), (20, 45), (30, 120)] 2) =
     [Inr 5, Inl NonIntegerResult, Inr (- 105)] \<and>
   tally_loop (combinations [(10, 25), (20, 45), (30, 120)] 2) [] = [(5, 1), (- 105, 1)] \<and>
   solve_secret 3 2 [(10, 25), (20, 45), (30, 120)] = Inr 5"
  by code_simp

section \<open>Selections and the tally\<close>

lemma tally_incr_keys: "fst ` set (tally_incr v t) = insert v (fst ` set t)"
  by (induction v t rule: tally_incr.induct) auto

lemma tally_incr_distinct: "distinct (map fst t) \<Longrightarrow> distinct (map fst (tally_incr v t))"
  by (induction v t rule: tally_incr.induct) (auto simp: tally_incr_keys)

lemma tally_incr_count:
  "tally_count (tally_incr v t) w = tally_count t w + (if w = v then 1 else 0)"
  by (induction v t rule: tally_incr.induct) (auto simp: tally_count_def)

lemma tally_loop_keys:
  "fst ` set (tally_loop combos t) =
     fst ` set t \<union> {v. \<exists>combo\<in>set combos. lagrange_constant_term combo = Inr v}"
  by (induction combos arbitrary: t) (auto simp: tally_incr_keys split: sum.splits)

lemma tally_loop_distinct:
  "distinct (map fst t) \<Longrightarrow> distinct (map fst (tally_loop combos t))"
  by (induction combos arbitrary: t) (auto simp: tally_incr_distinct split: sum.splits)

lemma tally_loop_count:
  "tally_count (tally_loop combos t) w =
     tally_count t w + length (filter (\<lambda>combo. lagrange_constant_term combo = Inr w) combos)"
  by (induction combos arbitrary: t) (auto simp: tally_incr_count split: sum.splits)

lemma tally_count_member:
  "distinct (map fst t) \<Longrightarrow> (w, c) \<in> set t \<Longrightarrow> tally_count t w = c"
  by (simp add: tally_count_def)

lemma tally_count_Nil: "tally_count [] w = 0"
  by (simp add: tally_count_def)

lemma tally_count_absent: "w \<notin> fst ` set t \<Longrightarrow> tally_count t w = 0"
  by (simp add: tally_count_def map_of_eq_None_iff [THEN iffD2])

lemma max_by_count_member: "max_by_count best items \<in> set (best # items)"
  by (induction best items rule: max_by_count.induct) auto

lemma max_by_count_greatest:
  "\<forall>item\<in>set (best # items). snd item \<le> snd (max_by_count best items)"
proof (induction best items rule: max_by_count.induct)
  case (1 best)
  show ?case by simp
next
  case (2 best x items)
  show ?case
  proof (cases "snd best < snd x")
    case True
    with 2 have ih: "\<forall>item\<in>set (x # items). snd item \<le> snd (max_by_count x items)"
      by simp
    then have "snd x \<le> snd (max_by_count x items)" by simp
    with True have "snd best \<le> snd (max_by_count x items)" by simp
    with ih True show ?thesis by simp
  next
    case False
    with 2 have ih: "\<forall>item\<in>set (best # items). snd item \<le> snd (max_by_count best items)"
      by simp
    then have "snd best \<le> snd (max_by_count best items)" by simp
    with False have "snd x \<le> snd (max_by_count best items)" by simp
    with ih False show ?thesis by simp
  qed
qed

lemma combinations_length: "combo \<in> set (combinations xs r) \<Longrightarrow> length combo = r"
  by (induction xs r arbitrary: combo rule: combinations.induct) auto

lemma combinations_subseq: "combo \<in> set (combinations xs r) \<Longrightarrow> subseq combo xs"
  by (induction xs r arbitrary: combo rule: combinations.induct) auto

lemma combinations_count: "length (combinations xs r) = length xs choose r"
  by (induction xs r rule: combinations.induct) auto

lemma combinations_complete:
  "subseq combo xs \<Longrightarrow> combo \<in> set (combinations xs (length combo))"
proof (induction xs arbitrary: combo)
  case Nil
  then have "combo = []" by simp
  then show ?case by simp
next
  case (Cons x xs)
  show ?case
  proof (cases combo)
    case Nil
    then show ?thesis by simp
  next
    case (Cons c cs)
    show ?thesis
    proof (cases "c = x \<and> subseq cs xs")
      case True
      then have "cs \<in> set (combinations xs (length cs))" by (simp add: Cons.IH)
      with True show ?thesis by (simp add: Cons)
    next
      case False
      with Cons.prems have "subseq combo xs"
        by (auto simp: Cons subseq_Cons' split: if_splits)
      then have "combo \<in> set (combinations xs (length combo))" by (rule Cons.IH)
      then show ?thesis by (simp add: Cons)
    qed
  qed
qed


lemma solve_secret_Inr:
  assumes "solve_secret n k processed_shares = Inr v"
  shows "1 \<le> k \<and> k \<le> n \<and> k \<le> int (length processed_shares) \<and>
         (\<exists>item items. tally_loop (combinations processed_shares (nat k)) [] = item # items \<and>
            v = fst (max_by_count item items))"
  using assms by (auto simp: solve_secret_def split: if_splits list.splits)

lemma combinations_set:
  "set (combinations xs r) = {combo. subseq combo xs \<and> length combo = r}"
  using combinations_complete [of _ xs]
  by (auto simp: combinations_length combinations_subseq)

lemma tally_incr_total: "sum_list (map snd (tally_incr v t)) = Suc (sum_list (map snd t))"
  by (induction v t rule: tally_incr.induct) auto

lemma tally_loop_total:
  "sum_list (map snd (tally_loop combos t)) =
     sum_list (map snd t) + length (filter (\<lambda>combo. \<not> isl (lagrange_constant_term combo)) combos)"
  by (induction combos arbitrary: t) (auto simp: tally_incr_total split: sum.splits)

section \<open>The winner of the vote\<close>

text \<open>
  C3. When the reconstruction returns \<open>v\<close>, the tally holds for every value the
  number of \<open>k\<close>-selections that interpolate to it, and no value \<open>w\<close> has more
  votes than \<open>v\<close>.
\<close>

theorem winner_has_most_votes:
  assumes "solve_secret n k processed_shares = Inr v"
  shows "tally_count (tally_loop (combinations processed_shares (nat k)) []) w =
           votes processed_shares (nat k) w \<and>
         votes processed_shares (nat k) w \<le> votes processed_shares (nat k) v"
proof -
  let ?t = "tally_loop (combinations processed_shares (nat k)) []"
  from solve_secret_Inr [OF assms] obtain item items
    where t: "?t = item # items" and v: "v = fst (max_by_count item items)"
    by blast
  have d: "distinct (map fst ?t)" by (rule tally_loop_distinct) simp
  have cnt: "tally_count ?t u = votes processed_shares (nat k) u" for u
    by (simp add: tally_loop_count votes_def tally_count_Nil)
  let ?best = "max_by_count item items"
  have "?best \<in> set ?t" using max_by_count_member [of item items] by (simp only: t)
  then have "(v, snd ?best) \<in> set ?t" by (simp add: v)
  with d have best: "tally_count ?t v = snd ?best" by (rule tally_count_member)
  have "tally_count ?t w \<le> snd ?best"
  proof (cases "w \<in> fst ` set ?t")
    case True
    then obtain c where c: "(w, c) \<in> set ?t" by auto
    with d have "tally_count ?t w = c" by (rule tally_count_member)
    moreover from c have "(w, c) \<in> set (item # items)" by (simp only: t)
    with max_by_count_greatest [of item items] have "snd (w, c) \<le> snd ?best"
      by (rule bspec)
    then have "c \<le> snd ?best" by simp
    ultimately show ?thesis by simp
  next
    case False
    then show ?thesis by (simp add: tally_count_absent)
  qed
  with best have "votes processed_shares (nat k) w \<le> votes processed_shares (nat k) v"
    by (simp only: cnt)
  with cnt [of w] show ?thesis by simp
qed

theorem winner_has_most_votes_witness:
  "solve_secret 4 2 [(1, 1), (2, 2), (3, 3), (4, 100)] = Inr 0 \<and>
   votes [(1, 1), (2, 2), (3, 3), (4, 100)] (nat 2) (- 96) = 1 \<and>
   votes [(1, 1), (2, 2), (3, 3), (4, 100)] (nat 2) 0 = 2 \<and>
   votes [(1, 1), (2, 2), (3, 3), (4, 100)] (nat 2) (- 96) \<le>
     votes [(1, 1), (2, 2), (3, 3), (4, 100)] (nat 2) 0"
proof -
  have h: "solve_secret 4 2 [(1, 1), (2, 2), (3, 3), (4, 100)] = Inr 0"
    by code_simp
  have a: "votes [(1, 1), (2, 2), (3, 3), (4, 100)] (nat 2) (- 96) = 1"
    by code_simp
  have b: "votes [(1, 1), (2, 2), (3, 3), (4, 100)] (nat 2) 0 = 2"
    by code_simp
  from winner_has_most_votes [OF h, of "- 96"] h a b show ?thesis by simp
qed

section \<open>Failures of single selections are absorbed\<close>

text \<open>
  C4. Let \<open>1 \<le> k \<le> n\<close> and let there be at least \<open>k\<close> shares. The selections
  tried are the subsequences of the shares of length \<open>k\<close>, one for each choice of
  \<open>k\<close> positions. The result is either \<open>NoConsistentSecret\<close> or an integer, so no
  error of the interpolation leaves the loop; the votes in the tally are as
  many as the selections whose interpolation succeeded, a failed one adds
  none; and the result is \<open>NoConsistentSecret\<close> exactly when the interpolation
  fails on every subsequence of length \<open>k\<close>.
\<close>

theorem selection_failures_absorbed:
  assumes "1 \<le> k" "k \<le> n" "k \<le> int (length processed_shares)"
  shows "(solve_secret n k processed_shares = Inl NoConsistentSecret \<longleftrightarrow>
            (\<forall>combo. subseq combo processed_shares \<and> length combo = nat k \<longrightarrow>
               (\<exists>e. lagrange_constant_term combo = Inl e))) \<and>
         (solve_secret n k processed_shares = Inl NoConsistentSecret \<or>
            (\<exists>v. solve_secret n k processed_shares = Inr v)) \<and>
         set (combinations processed_shares (nat k)) =
           {combo. subseq combo processed_shares \<and> length combo = nat k} \<and>
         length (combinations processed_shares (nat k)) =
           length processed_shares choose nat k \<and>
         sum_list (map snd (tally_loop (combinations processed_shares (nat k)) [])) =
           length (filter (\<lambda>combo. \<not> isl (lagrange_constant_term combo))
                          (combinations processed_shares (nat k)))"
proof -
  let ?t = "tally_loop (combinations processed_shares (nat k)) []"
  have empty: "?t = [] \<longleftrightarrow>
      (\<forall>combo. subseq combo processed_shares \<and> length combo = nat k \<longrightarrow>
         (\<exists>e. lagrange_constant_term combo = Inl e))"
  proof -
    have "?t = [] \<longleftrightarrow> fst ` set ?t = {}" by simp
    also have "\<dots> \<longleftrightarrow> (\<forall>combo\<in>set (combinations processed_shares (nat k)).
         \<forall>v. lagrange_constant_term combo \<noteq> Inr v)"
      unfolding tally_loop_keys by auto
    also have "\<dots> \<longleftrightarrow> (\<forall>combo\<in>set (combinations processed_shares (nat k)).
         \<exists>e. lagrange_constant_term combo = Inl e)"
      by (metis sum.exhaust sum.distinct(1))
    also have "\<dots> \<longleftrightarrow> (\<forall>combo. subseq combo processed_shares \<and> length combo = nat k \<longrightarrow>
         (\<exists>e. lagrange_constant_term combo = Inl e))"
      by (simp add: combinations_set)
    finally show ?thesis .
  qed
  have verdict: "(solve_secret n k processed_shares = Inl NoConsistentSecret \<longleftrightarrow>
            (\<forall>combo. subseq combo processed_shares \<and> length combo = nat k \<longrightarrow>
               (\<exists>e. lagrange_constant_term combo = Inl e))) \<and>
         (solve_secret n k processed_shares = Inl NoConsistentSecret \<or>
            (\<exists>v. solve_secret n k processed_shares = Inr v))"
    using assms empty by (auto simp: solve_secret_def split: list.splits)
  have total: "sum_list (map snd ?t) =
      length (filter (\<lambda>combo. \<not> isl (lagrange_constant_term combo))
                     (combinations processed_shares (nat k)))"
    by (simp add: tally_loop_total)
  from verdict total combinations_set [of processed_shares "nat k"]
    combinations_count [of processed_shares "nat k"]
  show ?thesis by blast
qed

text \<open>
  On the shares \<open>(10, 25)\<close>, \<open>(20, 45)\<close>, \<open>(30, 120)\<close> with \<open>k = 2\<close> the selection
  \<open>(10, 25)\<close>, \<open>(30, 120)\<close> fails and casts no vote, the other two vote, and the
  result is an integer.
\<close>

theorem selection_failures_absorbed_witness:
  "(1::int) \<le> 2 \<and> (2::int) \<le> 3 \<and>
   2 \<le> int (length ([(10, 25), (20, 45), (30, 120)] :: point list)) \<and>
   subseq [(10, 25), (30, 120)] ([(10, 25), (20, 45), (30, 120)] :: point list) \<and>
   length ([(10, 25), (30, 120)] :: point list) = nat 2 \<and>
   lagrange_constant_term [(10, 25), (30, 120)] = Inl NonIntegerResult \<and>
   lagrange_constant_term [(10, 25), (20, 45)] = Inr 5 \<and>
   length (combinations ([(10, 25), (20, 45), (30, 120)] :: point list) (nat 2)) = 3 \<and>
   sum_list (map snd (tally_loop (combinations [(10, 25), (20, 45), (30, 120)] (nat 2)) [])) = 2 \<and>
   solve_secret 3 2 [(10, 25), (20, 45), (30, 120)] \<noteq> Inl NoConsistentSecret \<and>
   solve_secret 3 2 [(10, 25), (20, 45), (30, 120)] = Inr 5"
proof -
  let ?S = "[(10, 25), (20, 45), (30, 120)] :: point list"
  have ok: "lagrange_constant_term [(10, 25), (20, 45)] = Inr 5"
    by code_simp
  have bad: "lagrange_constant_term [(10, 25), (30, 120)] = Inl NonIntegerResult"
    by code_simp
  have sub: "subseq [(10, 25), (20, 45)] ?S \<and> length ([(10, 25), (20, 45)] :: point list) = nat 2"
    by simp
  have sub': "subseq [(10, 25), (30, 120)] ?S \<and> length ([(10, 25), (30, 120)] :: point list) = nat 2"
    by simp
  have ch: "length ?S choose nat 2 = 3"
    by (simp add: numeral_2_eq_2 numeral_3_eq_3)
  have votes2: "length (filter (\<lambda>combo. \<not> isl (lagrange_constant_term combo))
      (combinations ?S (nat 2))) = 2"
    by code_simp
  have h: "solve_secret 3 2 ?S = Inr 5"
    by code_simp
  note inst = selection_failures_absorbed [of 2 3 ?S]
  have hyps: "(1::int) \<le> 2" "(2::int) \<le> 3" "2 \<le> int (length ?S)" by simp_all
  from inst [OF hyps] have
    iff: "solve_secret 3 2 ?S = Inl NoConsistentSecret \<longleftrightarrow>
      (\<forall>combo. subseq combo ?S \<and> length combo = nat 2 \<longrightarrow>
         (\<exists>e. lagrange_constant_term combo = Inl e))"
    and len: "length (combinations ?S (nat 2)) = length ?S choose nat 2"
    and tot: "sum_list (map snd (tally_loop (combinations ?S (nat 2)) [])) =
      length (filter (\<lambda>combo. \<not> isl (lagrange_constant_term combo)) (combinations ?S (nat 2)))"
    by blast+
  from iff sub ok have ne: "solve_secret 3 2 ?S \<noteq> Inl NoConsistentSecret"
    by (metis sum.distinct(1))
  from hyps sub' bad ok len ch tot votes2 ne h show ?thesis
    by simp
qed

section \<open>The winner is a candidate of some selection\<close>

text \<open>
  C10. When the reconstruction returns \<open>v\<close>, one of the enumerated selections, a
  subsequence of the shares of length \<open>k\<close>, interpolates to exactly \<open>v\<close>.
\<close>

theorem winner_is_realised:
  assumes "solve_secret n k processed_shares = Inr v"
  shows "\<exists>combo\<in>set (combinations processed_shares (nat k)).
           length combo = nat k \<and> subseq combo processed_shares \<and>
           lagrange_constant_term combo = Inr v"
proof -
  let ?t = "tally_loop (combinations processed_shares (nat k)) []"
  from solve_secret_Inr [OF assms] obtain item items
    where t: "?t = item # items" and v: "v = fst (max_by_count item items)"
    by blast
  have "max_by_count item items \<in> set ?t"
    using max_by_count_member [of item items] by (simp only: t)
  then have "v \<in> fst ` set ?t" by (auto simp: v)
  then obtain combo where "combo \<in> set (combinations processed_shares (nat k))"
    "lagrange_constant_term combo = Inr v"
    by (auto simp: tally_loop_keys)
  then show ?thesis
    by (auto simp: combinations_length combinations_subseq)
qed

theorem winner_is_realised_witness:
  "solve_secret 3 2 [(10, 25), (20, 45), (30, 120)] = Inr 5 \<and>
   (\<exists>combo\<in>set (combinations [(10, 25), (20, 45), (30, 120)] (nat 2)).
      length combo = nat 2 \<and> subseq combo [(10, 25), (20, 45), (30, 120)] \<and>
      lagrange_constant_term combo = Inr 5)"
proof -
  have h: "solve_secret 3 2 [(10, 25), (20, 45), (30, 120)] = Inr 5"
    by code_simp
  from winner_is_realised [OF h] h show ?thesis by simp
qed

section \<open>Single point\<close>

text \<open>
  C9. For every pair of integers \<open>(x, y)\<close>, also with \<open>x = 0\<close>, the interpolation of
  the one-point list \<open>[(x, y)]\<close> returns \<open>y\<close>: both products are empty, so the
  term is \<open>1 div 1\<close>.
\<close>

theorem single_point_returns_y: "lagrange_constant_term [(x, y)] = Inr y"
  by (simp add: lagrange_constant_term_def)

end
